theory Spec2Isabelle
  imports Main "HOL-Library.AList"
begin

section \<open>nix-review: evaluation, alias folding, build orchestration (nix\_review/nix.py)\<close>

text \<open>
  The module is embedded function by function. What the Python does besides returning a
  value is made explicit:
  \<^item> the list objects that \<open>Attr.aliases\<close> points to live in a store, and an \<open>Attr\<close> holds a
    reference into it: \<open>Attr.__init__\<close> declares \<open>aliases: List[str] = []\<close>, one list object
    created when the function is defined, and \<open>_nix_eval_filter\<close> mutates alias lists in
    place with \<open>append\<close>;
  \<^item> the processes, files and messages are a trace of events, and what the outside world
    answers (exit codes, the parsed standard output, the temporary file's name, the CPU
    count) is read from a \<open>world\<close> record;
  \<^item> exceptions are the left injection of a sum.
  The evaluation response is taken as already decoded by \<open>json.loads\<close> and shaped as
  the tool produces it: an object, in order, from names to
  \<open>{exists, broken, path, drvPath}\<close>. A Python set of names is given as the list that
  \<open>list(attrs)\<close> yields. File-system failures are not modelled.
\<close>

subsection \<open>The store of alias lists\<close>

type_synonym ref = nat

type_synonym store = "ref \<Rightarrow> string list"

text \<open>The list object of the default argument \<open>aliases: List[str] = []\<close>.\<close>

definition aliases_default :: ref where
  "aliases_default = 0"

text \<open>\<open>l.append(x)\<close> on the list object at \<open>r\<close>.\<close>

definition append_at :: "store \<Rightarrow> ref \<Rightarrow> string \<Rightarrow> store" where
  "append_at h r x = h(r := h r @ [x])"

subsection \<open>Attr\<close>

record Attr =
  name :: string
  exists :: bool
  broken :: bool
  blacklisted :: bool
  path :: "string option"
  path_verified :: "bool option"
  drv_path :: "string option"
  aliases :: ref

text \<open>
  \<open>Attr.__init__\<close>; the last argument is \<open>None\<close> when the caller passes no \<open>aliases\<close>,
  and the new object then points to the default list object.
\<close>

definition Attr_init ::
  "string \<Rightarrow> bool \<Rightarrow> bool \<Rightarrow> bool \<Rightarrow> string option \<Rightarrow> string option \<Rightarrow> ref option \<Rightarrow> Attr" where
  "Attr_init n e b bl p d al =
     \<lparr> name = n, exists = e, broken = b, blacklisted = bl, path = p,
       path_verified = None, drv_path = d,
       aliases = (case al of None \<Rightarrow> aliases_default | Some r \<Rightarrow> r) \<rparr>"

subsection \<open>Events, exceptions, the outside world\<close>

datatype event =
    Info string
  | Warn string
  | TempCreate string
  | TempDump string "string list"
  | TempClose string
  | Unlink string
  | WriteFile string string
  | Run "string list"

datatype exn = CalledProcessError | ValueError

record props =
  p_exists :: bool
  p_broken :: bool
  p_path :: "string option"
  p_drvPath :: "string option"

type_synonym response = "(string \<times> props) list"

text \<open>
  \<open>eval_stdout\<close> is \<open>None\<close> when \<open>nix eval\<close> exits non-zero, and the decoded standard
  output otherwise; \<open>build_returncode\<close> is the exit code of \<open>nix build\<close>;
  \<open>shlex_split\<close> is Python's
  \<open>shlex.split\<close>, \<open>None\<close> where it raises \<open>ValueError\<close> (an unclosed quotation);
  \<open>escape_attr\<close> and \<open>ROOT\<close> come from \<open>utils\<close>.
\<close>

record world =
  ROOT :: string
  tmp_name :: string
  eval_stdout :: "response option"
  build_returncode :: int
  cpu_count :: nat
  shlex_split :: "string \<Rightarrow> string list option"
  escape_attr :: "string \<Rightarrow> string"

subsection \<open>Attr.was\_build\<close>

text \<open>
  The first argument is the exit code \<open>nix-store --verify-path\<close> would give at the
  moment of the call. The result is the returned boolean, the object after the call and
  the processes run.
\<close>

definition was_build :: "(string \<Rightarrow> int) \<Rightarrow> Attr \<Rightarrow> bool \<times> Attr \<times> event list" where
  "was_build verify self =
     (case path self of
        None \<Rightarrow> (False, self, [])
      | Some p \<Rightarrow>
          (case path_verified self of
             Some v \<Rightarrow> (v, self, [])
           | None \<Rightarrow>
               (let returncode = verify p;
                    self' = self\<lparr>path_verified := Some (returncode = 0)\<rparr>
                in (returncode = 0, self', [Run [''nix-store'', ''--verify-path'', p]]))))"

text \<open>
  Repeated calls on one object, each with the answer the store would give then: the
  booleans returned, in order, the object at the end and all processes run.
\<close>

fun was_build_calls :: "(string \<Rightarrow> int) list \<Rightarrow> Attr \<Rightarrow> bool list \<times> Attr \<times> event list" where
  "was_build_calls [] self = ([], self, [])"
| "was_build_calls (v # vs) self =
     (case was_build v self of
        (r, self', evs) \<Rightarrow>
          (case was_build_calls vs self' of
             (rs, self'', evs') \<Rightarrow> (r # rs, self'', evs @ evs')))"

subsection \<open>\_nix\_eval\_filter\<close>

definition blacklist :: "string set" where
  "blacklist = {''tests.nixos-functions.nixos-test'', ''tests.nixos-functions.nixosTest-test''}"

text \<open>The \<open>Attr(...)\<close> built at the head of the loop body from one item of the response.\<close>

definition attr_of :: "string \<times> props \<Rightarrow> Attr" where
  "attr_of item =
     (case item of (n, pr) \<Rightarrow>
        Attr_init n (p_exists pr) (p_broken pr) (n \<in> blacklist) (p_path pr) (p_drvPath pr) None)"

text \<open>
  The loop's variables. \<open>attr_by_path\<close> is a Python dict: an association list in
  insertion order, where assigning to a present key keeps the key's place
  (\<open>AList.update\<close>) and a new key goes last.
\<close>

record filter_state =
  heap :: store
  attr_by_path :: "(string \<times> Attr) list"
  broken_acc :: "Attr list"

definition filter_step :: "filter_state \<Rightarrow> string \<times> props \<Rightarrow> filter_state" where
  "filter_step s item =
     (let attr = attr_of item in
      case path attr of
        Some p \<Rightarrow>
          (case map_of (attr_by_path s) p of
             None \<Rightarrow> s\<lparr>attr_by_path := AList.update p attr (attr_by_path s)\<rparr>
           | Some other \<Rightarrow>
               if length (name other) > length (name attr)
               then s\<lparr>attr_by_path := AList.update p attr (attr_by_path s),
                      heap := append_at (heap s) (aliases attr) (name other)\<rparr>
               else s\<lparr>heap := append_at (heap s) (aliases other) (name attr)\<rparr>)
      | None \<Rightarrow> s\<lparr>broken_acc := broken_acc s @ [attr]\<rparr>)"

fun filter_loop :: "filter_state \<Rightarrow> response \<Rightarrow> filter_state" where
  "filter_loop s [] = s"
| "filter_loop s (item # items) = filter_loop (filter_step s item) items"

text \<open>The returned list, and the store the call leaves behind.\<close>

definition nix_eval_filter :: "store \<Rightarrow> response \<Rightarrow> Attr list \<times> store" where
  "nix_eval_filter h json =
     (let s = filter_loop \<lparr>heap = h, attr_by_path = [], broken_acc = []\<rparr> json
      in (map snd (attr_by_path s) @ broken_acc s, heap s))"

subsection \<open>nix\_eval\<close>

fun join :: "string \<Rightarrow> string list \<Rightarrow> string" where
  "join sep [] = []"
| "join sep [x] = x"
| "join sep (x # y # ys) = x @ sep @ join sep (y # ys)"

text \<open>
  \<open>Path.joinpath\<close> followed by \<open>str\<close>. The first argument is the string of a
  \<open>Path\<close> object, as \<open>pathlib\<close> normalises it: \<open>.\<close> for the empty path, a trailing
  slash only on a root; the second is a relative path. Joining to \<open>.\<close> gives the
  second part alone, and joining to a root adds no slash.
\<close>

definition joinpath :: "string \<Rightarrow> string \<Rightarrow> string" where
  "joinpath d f =
     (if d = ''.'' then f
      else if d \<noteq> [] \<and> last d = CHR ''/'' then d @ f
      else d @ ''/'' @ f)"

definition nix_eval :: "world \<Rightarrow> store \<Rightarrow> string list \<Rightarrow> (exn + Attr list) \<times> store \<times> event list" where
  "nix_eval w h attrs =
     (let attr_json = tmp_name w;
          eval_script = joinpath (ROOT w) ''nix/evalAttrs.nix'';
          cmd = [''nix'', ''eval'', ''--json'',
                 ''(import '' @ eval_script @ '' '' @ attr_json @ '')''];
          evs = [TempCreate attr_json, TempDump attr_json attrs, Run cmd]
      in case eval_stdout w of
           None \<Rightarrow>
             (let evs' = evs @ [Warn (join '' '' cmd @ '' failed to run, '' @ attr_json
                                       @ '' was stored inspection'')];
                  delete = False
              in (Inl CalledProcessError, h,
                  evs' @ [TempClose attr_json] @ (if delete then [Unlink attr_json] else [])))
         | Some out \<Rightarrow>
             (let delete = True;
                  (res, h') = nix_eval_filter h out
              in (Inr res, h',
                  evs @ [TempClose attr_json] @ (if delete then [Unlink attr_json] else []))))"

subsection \<open>write\_shell\_expression and nix\_build\<close>

definition nl :: string where
  "nl = [CHR 0x0A]"

definition dq :: string where
  "dq = [CHR 0x22]"

definition shell_expression :: "world \<Rightarrow> string list \<Rightarrow> string" where
  "shell_expression w attrs =
     ''{ pkgs ? import ./nixpkgs {} }:'' @ nl @
     ''with pkgs;'' @ nl @
     ''stdenv.mkDerivation {'' @ nl @
     ''  name = '' @ dq @ ''env'' @ dq @ '';'' @ nl @
     ''  buildInputs = ['' @ nl @
     join nl (map (\<lambda>a. ''    '' @ escape_attr w a) attrs) @
     nl @
     ''  ];'' @ nl @
     ''  unpackPhase = '' @ dq @ '':'' @ dq @ '';'' @ nl @
     ''  installPhase = '' @ dq @ ''touch $out'' @ dq @ '';'' @ nl @
     ''}'' @ nl"

definition write_shell_expression :: "world \<Rightarrow> string \<Rightarrow> string list \<Rightarrow> event list" where
  "write_shell_expression w filename attrs = [WriteFile filename (shell_expression w attrs)]"

definition digit :: "nat \<Rightarrow> char" where
  "digit d = ''0123456789'' ! d"

fun str_nat :: "nat \<Rightarrow> string" where
  "str_nat n = (if n < 10 then [digit n] else str_nat (n div 10) @ [digit (n mod 10)])"

declare str_nat.simps [simp del]

text \<open>
  \<open>utils.sh\<close> runs the command and raises \<open>CalledProcessError\<close> on a non-zero exit.
\<close>

definition sh :: "int \<Rightarrow> string list \<Rightarrow> (exn + unit) \<times> event list" where
  "sh returncode command =
     ((if returncode = 0 then Inr () else Inl CalledProcessError), [Run command])"

text \<open>The names kept by the loop over \<open>attrs\<close> in \<open>nix_build\<close>.\<close>

definition filtered :: "Attr list \<Rightarrow> string list" where
  "filtered attrs = map name (filter (\<lambda>attr. \<not> (broken attr \<or> blacklisted attr)) attrs)"

definition build_command :: "world \<Rightarrow> string \<Rightarrow> string list \<Rightarrow> string list" where
  "build_command w build extra =
     [''nix'', ''build'', ''--no-link'', ''--keep-going'',
      ''--max-jobs'', str_nat (cpu_count w),
      ''--option'', ''build-use-sandbox'', ''true'',
      ''-f'', build] @ extra"

definition nix_build ::
  "world \<Rightarrow> store \<Rightarrow> string list \<Rightarrow> string \<Rightarrow> string \<Rightarrow> (exn + Attr list) \<times> store \<times> event list" where
  "nix_build w h attr_names args cache_directory =
     (if attr_names = [] then (Inr [], h, [Info ''Nothing changed''])
      else
        case nix_eval w h attr_names of
          (Inl e, h', evs) \<Rightarrow> (Inl e, h', evs)
        | (Inr attrs, h', evs) \<Rightarrow>
            if length (filtered attrs) = 0 then (Inr attrs, h', evs)
            else
              (let build = joinpath cache_directory ''build.nix'';
                   evs1 = evs @ write_shell_expression w build (filtered attrs)
               in case shlex_split w args of
                    None \<Rightarrow> (Inl ValueError, h', evs1)
                  | Some extra \<Rightarrow>
                      (case sh (build_returncode w) (build_command w build extra) of
                         (Inl CalledProcessError, evs2) \<Rightarrow> (Inr attrs, h', evs1 @ evs2)
                       | (Inl e, evs2) \<Rightarrow> (Inl e, h', evs1 @ evs2)
                       | (Inr u, evs2) \<Rightarrow> (Inr attrs, h', evs1 @ evs2))))"

subsection \<open>Vocabulary of the properties\<close>

text \<open>An event that reaches outside the process: everything but a message.\<close>

definition external :: "event \<Rightarrow> bool" where
  "external e = (case e of Info m \<Rightarrow> False | Warn m \<Rightarrow> False | _ \<Rightarrow> True)"

definition is_run :: "event \<Rightarrow> bool" where
  "is_run e = (case e of Run c \<Rightarrow> True | _ \<Rightarrow> False)"

text \<open>The items of a response that report output path \<open>p\<close>, in order.\<close>

definition items_at :: "string \<Rightarrow> response \<Rightarrow> response" where
  "items_at p json = filter (\<lambda>item. p_path (snd item) = Some p) json"

text \<open>
  Canonical selection in the specification's words: the item whose name has the fewest
  characters, the first-seen one among equals.
\<close>

definition shortest_first :: "response \<Rightarrow> string \<times> props" where
  "shortest_first items = arg_min_list (\<lambda>item. length (fst item)) items"

text \<open>The elements of a list in the order of their first occurrence.\<close>

definition first_seen :: "'a list \<Rightarrow> 'a list" where
  "first_seen xs = rev (remdups (rev xs))"

definition start :: "store \<Rightarrow> filter_state" where
  "start h = \<lparr>heap = h, attr_by_path = [], broken_acc = []\<rparr>"

text \<open>The output paths a response reports, in order, and its items without one.\<close>

definition output_paths :: "response \<Rightarrow> string list" where
  "output_paths json = List.map_filter (\<lambda>item. p_path (snd item)) json"

definition unresolved :: "response \<Rightarrow> response" where
  "unresolved json = filter (\<lambda>item. p_path (snd item) = None) json"

text \<open>
  The loop after one more item, with the dict lookup resolved: what \<open>filter_step\<close> does
  to the state reached on \<open>json\<close>, by the cases of the loop body.
\<close>

definition snoc_state :: "filter_state \<Rightarrow> response \<Rightarrow> string \<times> props \<Rightarrow> filter_state" where
  "snoc_state s json item =
     (case p_path (snd item) of
        None \<Rightarrow> s\<lparr>broken_acc := broken_acc s @ [attr_of item]\<rparr>
      | Some q \<Rightarrow>
          if items_at q json = []
          then s\<lparr>attr_by_path := AList.update q (attr_of item) (attr_by_path s)\<rparr>
          else if length (fst item) < length (fst (shortest_first (items_at q json)))
          then s\<lparr>attr_by_path := AList.update q (attr_of item) (attr_by_path s),
                 heap := append_at (heap s) aliases_default
                           (fst (shortest_first (items_at q json)))\<rparr>
          else s\<lparr>heap := append_at (heap s) aliases_default (fst item)\<rparr>)"

text \<open>The name the loop body appends to the alias list when it meets \<open>item\<close> after \<open>json\<close>.\<close>

definition folded :: "response \<Rightarrow> string \<times> props \<Rightarrow> string list" where
  "folded json item =
     (case p_path (snd item) of
        None \<Rightarrow> []
      | Some q \<Rightarrow>
          if items_at q json = [] then []
          else if length (fst item) < length (fst (shortest_first (items_at q json)))
          then [fst (shortest_first (items_at q json))]
          else [fst item])"

text \<open>
  Reading a build description back. \<open>split_lines\<close> is Python's \<open>str.split("\n")\<close>;
  \<open>unlines\<close> ends every line with a line break. \<open>head_lines\<close> and \<open>tail_lines\<close>
  are the fixed lines of the template of \<open>write_shell_expression\<close>, \<open>input_line\<close> is
  the line it writes for one name, and an escaped name is \<open>listed\<close> in a file content when
  its input line is one of the content's lines.
\<close>

fun split_lines :: "string \<Rightarrow> string list" where
  "split_lines [] = [[]]"
| "split_lines (c # cs) =
     (if c = CHR 0x0A then [] # split_lines cs
      else (c # hd (split_lines cs)) # tl (split_lines cs))"

definition unlines :: "string list \<Rightarrow> string" where
  "unlines ls = concat (map (\<lambda>l. l @ [CHR 0x0A]) ls)"

definition head_lines :: "string list" where
  "head_lines =
     [''{ pkgs ? import ./nixpkgs {} }:'',
      ''with pkgs;'',
      ''stdenv.mkDerivation {'',
      ''  name = '' @ [CHR 0x22] @ ''env'' @ [CHR 0x22] @ '';'',
      ''  buildInputs = ['']"

definition tail_lines :: "string list" where
  "tail_lines =
     [''  ];'',
      ''  unpackPhase = '' @ [CHR 0x22] @ '':'' @ [CHR 0x22] @ '';'',
      ''  installPhase = '' @ [CHR 0x22] @ ''touch $out'' @ [CHR 0x22] @ '';'',
      ''}'']"

definition input_line :: "world \<Rightarrow> string \<Rightarrow> string" where
  "input_line w a = ''    '' @ escape_attr w a"

definition listed :: "string \<Rightarrow> string \<Rightarrow> bool" where
  "listed e content = (''    '' @ e \<in> set (split_lines content))"

text \<open>Concrete values for the examples.\<close>

definition mk_item :: "string \<Rightarrow> bool \<Rightarrow> bool \<Rightarrow> string option \<Rightarrow> string \<times> props" where
  "mk_item n e b p = (n, \<lparr>p_exists = e, p_broken = b, p_path = p, p_drvPath = None\<rparr>)"

text \<open>
  What \<open>shlex.split\<close> answers on the argument strings of the examples: the empty string
  has no words, a lone quotation mark is an unclosed quotation, and a string without
  blanks, quotes or backslashes is one word.
\<close>

definition shlex0 :: "string \<Rightarrow> string list option" where
  "shlex0 s = (if s = [] then Some [] else if s = [CHR 0x27] then None else Some [s])"

definition world0 :: "response option \<Rightarrow> int \<Rightarrow> world" where
  "world0 out rc =
     \<lparr>ROOT = ''/r'', tmp_name = ''/tmp/t'', eval_stdout = out, build_returncode = rc,
      cpu_count = 4, shlex_split = shlex0, escape_attr = (\<lambda>a. a)\<rparr>"

definition empty_store :: store where
  "empty_store = (\<lambda>r. [])"

definition same_path3 :: response where
  "same_path3 = [mk_item ''a'' True False (Some ''/x''), mk_item ''bb'' True False (Some ''/x''),
                 mk_item ''ccc'' True False (Some ''/x'')]"

definition two_paths :: response where
  "two_paths = [mk_item ''a'' True False (Some ''/x''), mk_item ''bb'' True False (Some ''/x''),
                mk_item ''c'' True False (Some ''/y'')]"

definition pair_xyz :: response where
  "pair_xyz = [mk_item ''a'' True False (Some ''/store/xyz''),
               mk_item ''bb'' True False (Some ''/store/xyz'')]"

definition mixed :: response where
  "mixed = [mk_item ''d'' True False None, mk_item ''bbb'' True False (Some ''/x''),
            mk_item ''c'' True False (Some ''/y''), mk_item ''e'' False True None,
            mk_item ''a'' True False (Some ''/x'')]"

section \<open>Verification\<close>

subsection \<open>Attr.was\_build\<close>

lemma was_build_calls_cached:
  "path t = Some p \<Longrightarrow> path_verified t = Some b \<Longrightarrow>
   was_build_calls vs t = (replicate (length vs) b, t, [])"
  by (induction vs) (simp_all add: was_build_def)

lemma was_build_first:
  "path t = Some p \<Longrightarrow> path_verified t = None \<Longrightarrow>
   was_build v t = (v p = 0, t\<lparr>path_verified := Some (v p = 0)\<rparr>,
                    [Run [''nix-store'', ''--verify-path'', p]])"
  by (simp add: was_build_def Let_def)

text \<open>
  C8. \<open>was_build\<close> returns \<open>False\<close> and runs nothing when the path is \<open>None\<close>. On a
  target with a path, any sequence of calls, whatever the store would answer at each of
  them, runs at most one validity check and returns the same boolean every time; that
  boolean is then the cached field, and a field that is already set is returned as it
  is, with no check and no change.
\<close>

theorem was_build_idempotent:
  "(path t = None \<longrightarrow> was_build v t = (False, t, [])) \<and>
   (path t \<noteq> None \<longrightarrow>
      (case was_build_calls vs t of
         (rs, t', evs) \<Rightarrow>
           length (filter is_run evs) \<le> 1 \<and> length evs \<le> 1 \<and>
           (\<exists>b. rs = replicate (length vs) b \<and>
                (vs \<noteq> [] \<longrightarrow> path_verified t' = Some b) \<and>
                (path_verified t \<noteq> None \<longrightarrow>
                   path_verified t = Some b \<and> t' = t \<and> evs = []))))"
proof (intro conjI impI)
  assume "path t = None"
  then show "was_build v t = (False, t, [])" by (simp add: was_build_def)
next
  assume "path t \<noteq> None"
  then obtain p where p: "path t = Some p" by auto
  show "case was_build_calls vs t of
         (rs, t', evs) \<Rightarrow>
           length (filter is_run evs) \<le> 1 \<and> length evs \<le> 1 \<and>
           (\<exists>b. rs = replicate (length vs) b \<and>
                (vs \<noteq> [] \<longrightarrow> path_verified t' = Some b) \<and>
                (path_verified t \<noteq> None \<longrightarrow>
                   path_verified t = Some b \<and> t' = t \<and> evs = []))"
  proof (cases "path_verified t")
    case (Some b)
    then show ?thesis using was_build_calls_cached [OF p Some, of vs] by auto
  next
    case None
    show ?thesis
    proof (cases vs)
      case Nil
      then show ?thesis using None by simp
    next
      case (Cons w ws)
      let ?t = "t\<lparr>path_verified := Some (w p = 0)\<rparr>"
      have "was_build_calls ws ?t = (replicate (length ws) (w p = 0), ?t, [])"
        by (rule was_build_calls_cached) (simp_all add: p)
      then have "was_build_calls vs t =
             (replicate (length vs) (w p = 0), ?t, [Run [''nix-store'', ''--verify-path'', p]])"
        using Cons was_build_first [OF p None, of w] by simp
      then show ?thesis using None by (simp add: is_run_def)
    qed
  qed
qed

theorem was_build_idempotent_witness:
  "was_build (\<lambda>p. 0) (attr_of (mk_item ''c'' True False None)) =
     (False, attr_of (mk_item ''c'' True False None), []) \<and>
   fst (was_build_calls [\<lambda>p. 0, \<lambda>p. 1, \<lambda>p. 0] (attr_of (mk_item ''a'' True False (Some ''/x''))))
     = [True, True, True] \<and>
   length (snd (snd (was_build_calls [\<lambda>p. 0, \<lambda>p. 1, \<lambda>p. 0]
     (attr_of (mk_item ''a'' True False (Some ''/x'')))))) \<le> 1"
  using was_build_idempotent [of "attr_of (mk_item ''c'' True False None)" "\<lambda>p. 0" "[]"]
    was_build_idempotent [of "attr_of (mk_item ''a'' True False (Some ''/x''))" "\<lambda>p. 0"
      "[\<lambda>p. 0, \<lambda>p. 1, \<lambda>p. 0]"]
  by (simp add: attr_of_def mk_item_def Attr_init_def was_build_def Let_def)

subsection \<open>nix\_build on no names, nix\_eval and its temporary file\<close>

text \<open>
  C6. On an empty set of names \<open>nix_build\<close> returns the empty list at once; it leaves
  the store as it is and its only event is the message: no process is run, no temporary
  file is made and no file is written.
\<close>

theorem nix_build_empty:
  "nix_build w h [] args cache_directory = (Inr [], h, [Info ''Nothing changed'']) \<and>
   filter external (snd (snd (nix_build w h [] args cache_directory))) = []"
  by (simp add: nix_build_def external_def)

theorem nix_build_empty_witness:
  "fst (nix_build (world0 None 1) empty_store [] ''--foo'' ''/cache'') = Inr [] \<and>
   filter external (snd (snd (nix_build (world0 None 1) empty_store [] ''--foo'' ''/cache''))) = []"
  using nix_build_empty [of "world0 None 1" empty_store "''--foo''" "''/cache''"]
  by (simp add: external_def)

text \<open>
  C9. When \<open>nix eval\<close> exits non-zero, \<open>nix_eval\<close> raises \<open>CalledProcessError\<close> to
  its caller, has run the tool once and has not unlinked the temporary file (it closes it
  and leaves it). When the tool exits zero, the call returns a list, has run the tool
  once, and its last action is to unlink the temporary file.
\<close>

theorem nix_eval_cleanup:
  "(eval_stdout w = None \<longrightarrow>
      (case nix_eval w h attrs of
         (r, h', evs) \<Rightarrow>
            r = Inl CalledProcessError \<and> h' = h \<and>
            Unlink (tmp_name w) \<notin> set evs \<and> filter (\<lambda>e. \<exists>f. e = Unlink f) evs = [] \<and>
            length (filter is_run evs) = 1)) \<and>
   (eval_stdout w \<noteq> None \<longrightarrow>
      (case nix_eval w h attrs of
         (r, h', evs) \<Rightarrow>
            (\<exists>res. r = Inr res) \<and> last evs = Unlink (tmp_name w) \<and>
            length (filter is_run evs) = 1))"
  by (auto simp: nix_eval_def Let_def is_run_def split: prod.splits)

theorem nix_eval_cleanup_witness:
  "fst (nix_eval (world0 None 0) empty_store [''a'']) = Inl CalledProcessError \<and>
   Unlink ''/tmp/t'' \<notin> set (snd (snd (nix_eval (world0 None 0) empty_store [''a'']))) \<and>
   fst (nix_eval (world0 (Some [mk_item ''a'' True False None]) 0) empty_store [''a''])
     = Inr [attr_of (mk_item ''a'' True False None)] \<and>
   last (snd (snd (nix_eval (world0 (Some [mk_item ''a'' True False None]) 0) empty_store [''a''])))
     = Unlink ''/tmp/t''"
  using nix_eval_cleanup [of "world0 None 0" empty_store "[''a'']"]
    nix_eval_cleanup [of "world0 (Some [mk_item ''a'' True False None]) 0" empty_store "[''a'']"]
  by (simp add: world0_def shlex0_def nix_eval_def Let_def nix_eval_filter_def filter_step_def
      attr_of_def mk_item_def Attr_init_def split: prod.splits)

subsection \<open>The loop of \_nix\_eval\_filter, item by item\<close>

lemma filter_loop_append: "filter_loop s (xs @ ys) = filter_loop (filter_loop s xs) ys"
  by (induction xs arbitrary: s) simp_all

lemma filter_loop_snoc: "filter_loop s (xs @ [x]) = filter_step (filter_loop s xs) x"
  by (simp add: filter_loop_append)

lemma arg_min_list_snoc:
  "xs \<noteq> [] \<Longrightarrow>
   arg_min_list f (xs @ [x]) = (if f x < f (arg_min_list f xs) then x else arg_min_list f xs)"
  for f :: "'a \<Rightarrow> nat"
proof (induction f xs rule: arg_min_list.induct)
  case (1 f y)
  then show ?case by (auto simp: Let_def)
next
  case (2 f y z zs)
  then show ?case by (auto simp: Let_def)
next
  case (3 f)
  then show ?case by simp
qed

lemma attr_of_simps [simp]:
  "name (attr_of item) = fst item"
  "path (attr_of item) = p_path (snd item)"
  "broken (attr_of item) = p_broken (snd item)"
  "blacklisted (attr_of item) = (fst item \<in> blacklist)"
  "exists (attr_of item) = p_exists (snd item)"
  "aliases (attr_of item) = aliases_default"
  by (simp_all add: attr_of_def Attr_init_def split: prod.splits)

lemma items_at_snoc:
  "items_at p (json @ [item]) =
     (if p_path (snd item) = Some p then items_at p json @ [item] else items_at p json)"
  by (simp add: items_at_def)

lemma filter_step_unresolved:
  "p_path (snd item) = None \<Longrightarrow>
   filter_step s item = s\<lparr>broken_acc := broken_acc s @ [attr_of item]\<rparr>"
  by (simp add: filter_step_def)

lemma filter_step_new:
  "p_path (snd item) = Some p \<Longrightarrow> map_of (attr_by_path s) p = None \<Longrightarrow>
   filter_step s item = s\<lparr>attr_by_path := AList.update p (attr_of item) (attr_by_path s)\<rparr>"
  by (simp add: filter_step_def)

lemma filter_step_replace:
  "p_path (snd item) = Some p \<Longrightarrow> map_of (attr_by_path s) p = Some other \<Longrightarrow>
   length (fst item) < length (name other) \<Longrightarrow>
   filter_step s item =
     s\<lparr>attr_by_path := AList.update p (attr_of item) (attr_by_path s),
       heap := append_at (heap s) aliases_default (name other)\<rparr>"
  by (simp add: filter_step_def)

lemma filter_step_keep:
  "p_path (snd item) = Some p \<Longrightarrow> map_of (attr_by_path s) p = Some other \<Longrightarrow>
   \<not> length (fst item) < length (name other) \<Longrightarrow>
   filter_step s item = s\<lparr>heap := append_at (heap s) (aliases other) (fst item)\<rparr>"
  by (simp add: filter_step_def)

lemma shortest_first_snoc:
  "items \<noteq> [] \<Longrightarrow>
   shortest_first (items @ [item]) =
     (if length (fst item) < length (fst (shortest_first items)) then item
      else shortest_first items)"
  by (simp add: shortest_first_def arg_min_list_snoc)

lemma shortest_first_single: "shortest_first [item] = item"
  by (simp add: shortest_first_def)

lemma shortest_first_in: "items \<noteq> [] \<Longrightarrow> shortest_first items \<in> set items"
  by (simp add: shortest_first_def arg_min_list_in)

lemma loop_snoc_aux:
  assumes look: "\<And>p. map_of (attr_by_path (filter_loop (start h) json)) p =
     (if items_at p json = [] then None
      else Some (attr_of (shortest_first (items_at p json))))"
  shows "filter_loop (start h) (json @ [item]) = snoc_state (filter_loop (start h) json) json item"
proof (cases "p_path (snd item)")
  case None
  then show ?thesis
    by (simp add: filter_loop_snoc filter_step_unresolved snoc_state_def)
next
  case (Some q)
  let ?s = "filter_loop (start h) json"
  show ?thesis
  proof (cases "items_at q json = []")
    case True
    then have "map_of (attr_by_path ?s) q = None" using look [of q] by simp
    then have "filter_step ?s item =
        ?s\<lparr>attr_by_path := AList.update q (attr_of item) (attr_by_path ?s)\<rparr>"
      using Some by (rule filter_step_new [rotated])
    then show ?thesis using True Some
      by (simp add: filter_loop_snoc snoc_state_def)
  next
    case False
    let ?m = "shortest_first (items_at q json)"
    have other: "map_of (attr_by_path ?s) q = Some (attr_of ?m)"
      using False look [of q] by simp
    show ?thesis
    proof (cases "length (fst item) < length (fst ?m)")
      case True
      then have "filter_step ?s item =
          ?s\<lparr>attr_by_path := AList.update q (attr_of item) (attr_by_path ?s),
             heap := append_at (heap ?s) aliases_default (name (attr_of ?m))\<rparr>"
        using filter_step_replace [OF Some other] by simp
      then show ?thesis using True False Some
        by (simp add: filter_loop_snoc snoc_state_def)
    next
      case no: False
      then have "filter_step ?s item =
          ?s\<lparr>heap := append_at (heap ?s) (aliases (attr_of ?m)) (fst item)\<rparr>"
        using filter_step_keep [OF Some other] by simp
      then show ?thesis using no False Some
        by (simp add: filter_loop_snoc snoc_state_def)
    qed
  qed
qed

lemma canonical_lookup:
  "map_of (attr_by_path (filter_loop (start h) json)) p =
     (if items_at p json = [] then None
      else Some (attr_of (shortest_first (items_at p json))))"
proof (induction json arbitrary: p rule: rev_induct)
  case Nil
  then show ?case by (simp add: start_def items_at_def)
next
  case (snoc item json)
  have "filter_loop (start h) (json @ [item]) = snoc_state (filter_loop (start h) json) json item"
    by (rule loop_snoc_aux) (rule snoc)
  then show ?case using snoc [of p]
    by (auto simp: snoc_state_def items_at_snoc update_conv' shortest_first_snoc
        shortest_first_single split: option.splits)
qed

lemma loop_snoc:
  "filter_loop (start h) (json @ [item]) = snoc_state (filter_loop (start h) json) json item"
  by (rule loop_snoc_aux) (rule canonical_lookup)

lemma broken_acc_loop:
  "broken_acc (filter_loop (start h) json) = map attr_of (unresolved json)"
proof (induction json rule: rev_induct)
  case Nil
  then show ?case by (simp add: start_def unresolved_def)
next
  case (snoc item json)
  then show ?case
    by (auto simp: loop_snoc snoc_state_def unresolved_def split: option.splits)
qed

lemma first_seen_snoc:
  "first_seen (xs @ [x]) = (if x \<in> set xs then first_seen xs else first_seen xs @ [x])"
  by (simp add: first_seen_def)

lemma output_paths_snoc:
  "output_paths (json @ [item]) =
     (case p_path (snd item) of None \<Rightarrow> output_paths json | Some q \<Rightarrow> output_paths json @ [q])"
  by (simp add: output_paths_def map_filter_def split: option.splits)

lemma items_at_empty_iff: "items_at p json = [] \<longleftrightarrow> p \<notin> set (output_paths json)"
  by (induction json) (auto simp: items_at_def output_paths_def map_filter_def)

lemma keys_loop:
  "map fst (attr_by_path (filter_loop (start h) json)) = first_seen (output_paths json)"
proof (induction json rule: rev_induct)
  case Nil
  then show ?case by (simp add: start_def output_paths_def first_seen_def)
next
  case (snoc item json)
  have mem: "q \<in> set (map fst (attr_by_path (filter_loop (start h) json)))
      \<longleftrightarrow> q \<in> set (output_paths json)" for q
    using snoc by (simp add: first_seen_def)
  show ?case
  proof (cases "p_path (snd item)")
    case None
    then show ?thesis using snoc
      by (simp add: loop_snoc snoc_state_def output_paths_snoc)
  next
    case (Some q)
    then show ?thesis using snoc mem [of q]
      by (simp add: loop_snoc snoc_state_def output_paths_snoc first_seen_snoc
          update_keys items_at_empty_iff del: set_map)
  qed
qed

lemma distinct_keys_loop: "distinct (map fst (attr_by_path (filter_loop (start h) json)))"
  by (simp add: keys_loop first_seen_def)

lemma values_by_keys:
  "distinct (map fst al) \<Longrightarrow> map snd al = map (\<lambda>k. the (map_of al k)) (map fst al)"
proof (induction al)
  case Nil
  then show ?case by simp
next
  case (Cons a al)
  have "the (map_of (a # al) k) = the (map_of al k)" if "k \<in> set (map fst al)" for k
  proof -
    have "k \<noteq> fst a" using that Cons.prems by (metis distinct.simps(2) list.simps(9))
    then show ?thesis by (cases a) simp
  qed
  then have "map (\<lambda>k. the (map_of (a # al) k)) (map fst al) = map (\<lambda>k. the (map_of al k)) (map fst al)"
    by (intro map_cong) simp_all
  then show ?case using Cons by simp
qed

lemma canonical_values:
  "map snd (attr_by_path (filter_loop (start h) json)) =
     map (\<lambda>p. attr_of (shortest_first (items_at p json))) (first_seen (output_paths json))"
proof -
  let ?al = "attr_by_path (filter_loop (start h) json)"
  have "map snd ?al = map (\<lambda>k. the (map_of ?al k)) (map fst ?al)"
    by (rule values_by_keys) (rule distinct_keys_loop)
  also have "\<dots> = map (\<lambda>k. the (map_of ?al k)) (first_seen (output_paths json))"
    by (simp only: keys_loop)
  also have "\<dots> = map (\<lambda>p. attr_of (shortest_first (items_at p json)))
       (first_seen (output_paths json))"
    by (rule map_cong) (simp_all add: canonical_lookup items_at_empty_iff first_seen_def)
  finally show ?thesis .
qed

lemma heap_snoc:
  "heap (filter_loop (start h) (json @ [item])) =
     (heap (filter_loop (start h) json))
       (aliases_default := heap (filter_loop (start h) json) aliases_default @ folded json item)"
  by (auto simp: loop_snoc snoc_state_def folded_def append_at_def split: option.splits)

lemma aliases_loop:
  "x \<in> set (items_at p json) \<Longrightarrow>
   x = shortest_first (items_at p json) \<or>
   fst x \<in> set (heap (filter_loop (start h) json) aliases_default)"
proof (induction json rule: rev_induct)
  case Nil
  then show ?case by (simp add: items_at_def)
next
  case (snoc item json)
  let ?old = "heap (filter_loop (start h) json) aliases_default"
  have new: "heap (filter_loop (start h) (json @ [item])) aliases_default = ?old @ folded json item"
    by (simp add: heap_snoc)
  show ?case
  proof (cases "p_path (snd item) = Some p")
    case False
    then show ?thesis using snoc new by (auto simp: items_at_snoc)
  next
    case True
    show ?thesis
    proof (cases "items_at p json = []")
      case True
      then show ?thesis using snoc.prems \<open>p_path (snd item) = Some p\<close>
        by (simp add: items_at_snoc shortest_first_single)
    next
      case False
      let ?m = "shortest_first (items_at p json)"
      have sf: "shortest_first (items_at p (json @ [item])) =
          (if length (fst item) < length (fst ?m) then item else ?m)"
        using True False by (simp add: items_at_snoc shortest_first_snoc)
      have fo: "folded json item = (if length (fst item) < length (fst ?m) then [fst ?m] else [fst item])"
        using True False by (simp add: folded_def)
      have "x = item \<or> x \<in> set (items_at p json)"
        using snoc.prems True by (auto simp: items_at_snoc)
      then show ?thesis
      proof
        assume "x = item"
        then show ?thesis using sf fo new by auto
      next
        assume "x \<in> set (items_at p json)"
        then have "x = ?m \<or> fst x \<in> set ?old" by (rule snoc.IH)
        then show ?thesis using sf fo new by auto
      qed
    qed
  qed
qed

lemma heap_elsewhere:
  "r \<noteq> aliases_default \<Longrightarrow> heap (filter_loop (start h) json) r = h r"
proof (induction json rule: rev_induct)
  case Nil
  then show ?case by (simp add: start_def)
next
  case (snoc item json)
  then show ?case by (simp add: heap_snoc)
qed

lemma heap_grows:
  "\<exists>l. heap (filter_loop (start h) json) aliases_default = h aliases_default @ l"
proof (induction json rule: rev_induct)
  case Nil
  then show ?case by (simp add: start_def)
next
  case (snoc item json)
  then show ?case by (auto simp: heap_snoc)
qed

lemma shortest_first_split:
  "items \<noteq> [] \<Longrightarrow>
   \<exists>ys zs. items = ys @ [shortest_first items] @ zs \<and>
     (\<forall>y \<in> set ys. length (fst (shortest_first items)) < length (fst y)) \<and>
     (\<forall>z \<in> set zs. length (fst (shortest_first items)) \<le> length (fst z))"
proof (induction items rule: rev_induct)
  case Nil
  then show ?case by simp
next
  case (snoc x xs)
  show ?case
  proof (cases "xs = []")
    case True
    show ?thesis unfolding True
      by (intro exI [of _ "[]"]) (simp add: shortest_first_single)
  next
    case False
    let ?c = "shortest_first xs"
    from snoc.IH [OF False] obtain ys zs where
      split: "xs = ys @ [?c] @ zs"
      and before: "\<forall>y \<in> set ys. length (fst ?c) < length (fst y)"
      and after: "\<forall>z \<in> set zs. length (fst ?c) \<le> length (fst z)"
      by blast
    show ?thesis
    proof (cases "length (fst x) < length (fst ?c)")
      case True
      then have sf: "shortest_first (xs @ [x]) = x"
        using False by (simp add: shortest_first_snoc)
      have "\<forall>y \<in> set xs. length (fst x) < length (fst y)"
      proof
        fix y assume "y \<in> set xs"
        then have "y \<in> set ys \<or> y = ?c \<or> y \<in> set zs"
          using split by (metis Un_iff append_Cons append_Nil set_ConsD set_append)
        then show "length (fst x) < length (fst y)"
          using True before after by force
      qed
      then have "xs @ [x] = xs @ [x] @ [] \<and>
          (\<forall>y \<in> set xs. length (fst x) < length (fst y)) \<and>
          (\<forall>z \<in> set []. length (fst x) \<le> length (fst z))"
        by simp
      then show ?thesis unfolding sf by blast
    next
      case no: False
      then have sf: "shortest_first (xs @ [x]) = ?c"
        using False by (simp add: shortest_first_snoc)
      have "xs @ [x] = ys @ [?c] @ (zs @ [x])" using split by simp
      moreover have "\<forall>z \<in> set (zs @ [x]). length (fst ?c) \<le> length (fst z)"
        using after no by auto
      ultimately show ?thesis unfolding sf using before by blast
    qed
  qed
qed

subsection \<open>What \_nix\_eval\_filter returns\<close>

lemma eval_filter_result:
  "fst (nix_eval_filter h json) =
     map (\<lambda>p. attr_of (shortest_first (items_at p json))) (first_seen (output_paths json))
     @ map attr_of (unresolved json)"
  "snd (nix_eval_filter h json) = heap (filter_loop (start h) json)"
  by (simp_all add: nix_eval_filter_def Let_def start_def [symmetric] canonical_values
      broken_acc_loop)

lemma set_first_seen: "set (first_seen xs) = set xs"
  by (simp add: first_seen_def)

lemma canonical_in_items:
  "p \<in> set (output_paths json) \<Longrightarrow> shortest_first (items_at p json) \<in> set (items_at p json)"
  by (simp add: shortest_first_in items_at_empty_iff)

lemma items_at_D: "x \<in> set (items_at p json) \<Longrightarrow> x \<in> set json \<and> p_path (snd x) = Some p"
  by (simp add: items_at_def)

lemma canonical_path:
  "p \<in> set (output_paths json) \<Longrightarrow> p_path (snd (shortest_first (items_at p json))) = Some p"
  using canonical_in_items [of p json] items_at_D by auto

lemma result_from_items:
  assumes "t \<in> set (fst (nix_eval_filter h json))"
  shows "\<exists>x \<in> set json. t = attr_of x"
proof -
  from assms consider
    p where "p \<in> set (output_paths json)" "t = attr_of (shortest_first (items_at p json))"
    | x where "x \<in> set (unresolved json)" "t = attr_of x"
    by (auto simp: eval_filter_result set_first_seen)
  then show ?thesis
  proof cases
    case 1
    then show ?thesis using canonical_in_items [of p json] items_at_D by blast
  next
    case 2
    then show ?thesis by (auto simp: unresolved_def)
  qed
qed

lemma aliases_all_default:
  "t \<in> set (fst (nix_eval_filter h json)) \<Longrightarrow> aliases t = aliases_default"
  using result_from_items by fastforce

lemma filter_distinct_keys:
  "distinct ks \<Longrightarrow> p \<in> set ks \<Longrightarrow> (\<forall>k \<in> set ks. g (f k) = Some k) \<Longrightarrow>
   filter (\<lambda>t. g t = Some p) (map f ks) = [f p]"
proof (induction ks)
  case Nil
  then show ?case by simp
next
  case (Cons k ks)
  show ?case
  proof (cases "k = p")
    case True
    then have "filter (\<lambda>t. g t = Some p) (map f ks) = []"
      using Cons.prems by (auto simp: filter_empty_conv)
    then show ?thesis using True Cons.prems by simp
  next
    case False
    then show ?thesis using Cons by simp
  qed
qed

lemma survivors_at:
  assumes "p \<in> set (output_paths json)"
  shows "filter (\<lambda>t. path t = Some p) (fst (nix_eval_filter h json)) =
           [attr_of (shortest_first (items_at p json))]"
proof -
  have "filter (\<lambda>t. path t = Some p) (map attr_of (unresolved json)) = []"
    by (auto simp: filter_empty_conv unresolved_def)
  moreover have "filter (\<lambda>t. path t = Some p)
      (map (\<lambda>p. attr_of (shortest_first (items_at p json))) (first_seen (output_paths json)))
      = [attr_of (shortest_first (items_at p json))]"
    by (rule filter_distinct_keys)
      (simp_all add: assms set_first_seen canonical_path, simp add: first_seen_def)
  ultimately show ?thesis by (simp add: eval_filter_result)
qed

lemmas run_defs = nix_eval_filter_def filter_step_def attr_of_def Attr_init_def mk_item_def
  append_at_def empty_store_def aliases_default_def Let_def

text \<open>
  C1 (the code departs from the claim). The claim: every name in a returned target's
  alias list is the name of a result with that target's own output path, and targets of
  different output paths have independent alias lists. The code, on the response
  \<open>a \<mapsto> /x, bb \<mapsto> /x, c \<mapsto> /y\<close> and a fresh default list: it returns the targets
  \<open>a\<close> and \<open>c\<close>, both pointing to the one list object of the default argument, which
  now holds \<open>bb\<close>; so \<open>c\<close>, whose output path is \<open>/y\<close>, lists the alias \<open>bb\<close>, whose
  output path is \<open>/x\<close>.
\<close>

theorem aliases_shared_example:
  "map name (fst (nix_eval_filter empty_store two_paths)) = [''a'', ''c''] \<and>
   map path (fst (nix_eval_filter empty_store two_paths)) = [Some ''/x'', Some ''/y''] \<and>
   map aliases (fst (nix_eval_filter empty_store two_paths)) = [aliases_default, aliases_default] \<and>
   snd (nix_eval_filter empty_store two_paths) aliases_default = [''bb'']"
  by (simp add: run_defs two_paths_def)

text \<open>
  C2 as stated fails on three results of one output path: of the two results \<open>bb\<close> and
  \<open>ccc\<close>, which share \<open>/x\<close>, neither survives; the only returned target is \<open>a\<close>.
\<close>

theorem pairwise_canonical_counterexample:
  "mk_item ''bb'' True False (Some ''/x'') \<in> set same_path3 \<and>
   mk_item ''ccc'' True False (Some ''/x'') \<in> set same_path3 \<and>
   map name (fst (nix_eval_filter empty_store same_path3)) = [''a'']"
  by (simp add: run_defs same_path3_def)

text \<open>
  C2, amended. Among all results of one batch that report the same non-null output path
  \<open>p\<close>, exactly one survives in the returned list: the one whose name has the fewest
  characters, the first-seen one among equals (every result of \<open>p\<close> before it has a
  strictly longer name, every one after it a name at least as long). The name of every
  other result of \<open>p\<close> is in the survivor's alias list as the call leaves it.
\<close>

theorem canonical_per_output_path:
  assumes "x \<in> set json" and "p_path (snd x) = Some p"
  shows "\<exists>c ys zs.
           items_at p json = ys @ [c] @ zs \<and>
           (\<forall>y \<in> set ys. length (fst c) < length (fst y)) \<and>
           (\<forall>z \<in> set zs. length (fst c) \<le> length (fst z)) \<and>
           filter (\<lambda>t. path t = Some p) (fst (nix_eval_filter h json)) = [attr_of c] \<and>
           (\<forall>y \<in> set (items_at p json).
              y \<noteq> c \<longrightarrow> fst y \<in> set (snd (nix_eval_filter h json) (aliases (attr_of c))))"
proof -
  let ?c = "shortest_first (items_at p json)"
  have ne: "items_at p json \<noteq> []" using assms by (auto simp: items_at_def filter_empty_conv)
  then have mem: "p \<in> set (output_paths json)" by (simp add: items_at_empty_iff)
  from shortest_first_split [OF ne] obtain ys zs where
    "items_at p json = ys @ [?c] @ zs"
    "\<forall>y \<in> set ys. length (fst ?c) < length (fst y)"
    "\<forall>z \<in> set zs. length (fst ?c) \<le> length (fst z)"
    by blast
  moreover have "filter (\<lambda>t. path t = Some p) (fst (nix_eval_filter h json)) = [attr_of ?c]"
    using mem by (rule survivors_at)
  moreover have "\<forall>y \<in> set (items_at p json).
      y \<noteq> ?c \<longrightarrow> fst y \<in> set (snd (nix_eval_filter h json) (aliases (attr_of ?c)))"
    using aliases_loop [of _ p json h] by (auto simp: eval_filter_result)
  ultimately show ?thesis by blast
qed

theorem canonical_per_output_path_witness:
  "mk_item ''bb'' True False (Some ''/store/xyz'') \<in> set pair_xyz \<and>
   (\<exists>c ys zs.
      items_at ''/store/xyz'' pair_xyz = ys @ [c] @ zs \<and>
      (\<forall>y \<in> set ys. length (fst c) < length (fst y)) \<and>
      (\<forall>z \<in> set zs. length (fst c) \<le> length (fst z)) \<and>
      filter (\<lambda>t. path t = Some ''/store/xyz'') (fst (nix_eval_filter empty_store pair_xyz))
        = [attr_of c] \<and>
      (\<forall>y \<in> set (items_at ''/store/xyz'' pair_xyz).
         y \<noteq> c \<longrightarrow>
         fst y \<in> set (snd (nix_eval_filter empty_store pair_xyz) (aliases (attr_of c))))) \<and>
   map name (fst (nix_eval_filter empty_store pair_xyz)) = [''a''] \<and>
   snd (nix_eval_filter empty_store pair_xyz) aliases_default = [''bb'']"
proof -
  have m: "mk_item ''bb'' True False (Some ''/store/xyz'') \<in> set pair_xyz"
    by (simp add: pair_xyz_def)
  have p: "p_path (snd (mk_item ''bb'' True False (Some ''/store/xyz''))) = Some ''/store/xyz''"
    by (simp add: mk_item_def)
  have run: "map name (fst (nix_eval_filter empty_store pair_xyz)) = [''a''] \<and>
      snd (nix_eval_filter empty_store pair_xyz) aliases_default = [''bb'']"
    by (simp add: run_defs pair_xyz_def)
  show ?thesis
    using m run canonical_per_output_path [OF m p, of empty_store] by blast
qed

text \<open>
  C3. The returned list is the values of the output-path dict, in its insertion order,
  followed by the unresolved targets: the keys of the dict are the non-null output
  paths of the response in the order of their first occurrence, each value has its key
  as output path, and the tail is one target for each result with a null output path, in
  the response's order, each with a null output path.
\<close>

theorem eval_filter_order:
  "fst (nix_eval_filter h json) =
     map snd (attr_by_path (filter_loop (start h) json)) @ map attr_of (unresolved json) \<and>
   map fst (attr_by_path (filter_loop (start h) json)) = first_seen (output_paths json) \<and>
   map path (map snd (attr_by_path (filter_loop (start h) json)))
     = map Some (first_seen (output_paths json)) \<and>
   map path (map attr_of (unresolved json)) = replicate (length (unresolved json)) None"
proof (intro conjI)
  show "fst (nix_eval_filter h json) =
     map snd (attr_by_path (filter_loop (start h) json)) @ map attr_of (unresolved json)"
    by (simp add: eval_filter_result canonical_values)
  show "map fst (attr_by_path (filter_loop (start h) json)) = first_seen (output_paths json)"
    by (rule keys_loop)
  show "map path (map snd (attr_by_path (filter_loop (start h) json)))
     = map Some (first_seen (output_paths json))"
    by (simp add: canonical_values set_first_seen canonical_path)
  show "map path (map attr_of (unresolved json)) = replicate (length (unresolved json)) None"
    by (induction json) (simp_all add: unresolved_def)
qed

theorem eval_filter_order_witness:
  "map name (fst (nix_eval_filter empty_store mixed)) = [''a'', ''c'', ''d'', ''e''] \<and>
   map path (fst (nix_eval_filter empty_store mixed)) = [Some ''/x'', Some ''/y'', None, None] \<and>
   map fst (attr_by_path (filter_loop (start empty_store) mixed)) = [''/x'', ''/y''] \<and>
   map fst (unresolved mixed) = [''d'', ''e'']"
proof -
  have fs: "first_seen (output_paths mixed) = [''/x'', ''/y'']"
    by (simp add: mixed_def mk_item_def first_seen_def output_paths_def)
  have un: "unresolved mixed = [mk_item ''d'' True False None, mk_item ''e'' False True None]"
    by (simp add: mixed_def mk_item_def unresolved_def)
  have run: "map name (map snd (attr_by_path (filter_loop (start empty_store) mixed)))
      = [''a'', ''c'']"
    by (simp add: start_def filter_step_def attr_of_def Attr_init_def mk_item_def
        append_at_def empty_store_def aliases_default_def Let_def mixed_def)
  show ?thesis
    using eval_filter_order [of empty_store mixed] run
    by (simp add: fs un) (simp add: mk_item_def)
qed

subsection \<open>nix\_build\<close>

lemma nix_eval_ok:
  "eval_stdout w = Some out \<Longrightarrow>
   fst (nix_eval w h attrs) = Inr (fst (nix_eval_filter h out)) \<and>
   fst (snd (nix_eval w h attrs)) = snd (nix_eval_filter h out)"
  by (simp add: nix_eval_def Let_def split: prod.splits)

lemma nix_eval_no_write: "WriteFile f c \<notin> set (snd (snd (nix_eval w h attrs)))"
  by (simp add: nix_eval_def Let_def split: prod.splits option.splits)

lemma nix_eval_runs:
  "filter is_run (snd (snd (nix_eval w h attrs))) =
     [Run [''nix'', ''eval'', ''--json'',
           ''(import '' @ joinpath (ROOT w) ''nix/evalAttrs.nix'' @ '' '' @ tmp_name w @ '')'']]"
  by (simp add: nix_eval_def Let_def is_run_def split: prod.splits option.splits)

lemma nix_build_evaluated:
  assumes "attr_names \<noteq> []" and "eval_stdout w = Some out"
  shows "nix_build w h attr_names args cache_directory =
    (let attrs = fst (nix_eval_filter h out);
         h' = snd (nix_eval_filter h out);
         evs = snd (snd (nix_eval w h attr_names));
         build = joinpath cache_directory ''build.nix''
     in if filtered attrs = [] then (Inr attrs, h', evs)
        else case shlex_split w args of
               None \<Rightarrow>
                 (Inl ValueError, h', evs @ [WriteFile build (shell_expression w (filtered attrs))])
             | Some extra \<Rightarrow>
                 (Inr attrs, h',
                  evs @ [WriteFile build (shell_expression w (filtered attrs)),
                         Run (build_command w build extra)]))"
proof -
  obtain r h' evs where ev: "nix_eval w h attr_names = (r, h', evs)"
    by (cases "nix_eval w h attr_names") auto
  have r: "r = Inr (fst (nix_eval_filter h out))" and h': "h' = snd (nix_eval_filter h out)"
    using nix_eval_ok [OF assms(2), of h attr_names] ev by simp_all
  show ?thesis using assms(1)
    by (simp add: nix_build_def ev r h' Let_def sh_def write_shell_expression_def
        split: option.splits)
qed

lemma nix_build_failed_eval:
  assumes "attr_names \<noteq> []" and "eval_stdout w = None"
  shows "nix_build w h attr_names args cache_directory =
           (Inl CalledProcessError, h, snd (snd (nix_eval w h attr_names)))"
  using assms by (simp add: nix_build_def nix_eval_def Let_def)

lemma nix_build_writes:
  assumes "WriteFile f c \<in> set (snd (snd (nix_build w h attr_names args cache_directory)))"
  shows "\<exists>out. eval_stdout w = Some out \<and> attr_names \<noteq> [] \<and>
           f = joinpath cache_directory ''build.nix'' \<and>
           c = shell_expression w (filtered (fst (nix_eval_filter h out)))"
proof (cases "attr_names = []")
  case True
  then show ?thesis using assms by (simp add: nix_build_def)
next
  case False
  show ?thesis
  proof (cases "eval_stdout w")
    case None
    then show ?thesis using assms False
      by (simp add: nix_build_failed_eval nix_eval_no_write)
  next
    case (Some out)
    then show ?thesis using assms False
      by (auto simp: nix_build_evaluated Let_def nix_eval_no_write
          split: if_splits option.splits)
  qed
qed

lemma filtered_member:
  "t \<in> set attrs \<Longrightarrow> \<not> broken t \<Longrightarrow> \<not> blacklisted t \<Longrightarrow> name t \<in> set (filtered attrs)"
  by (induction attrs) (auto simp: filtered_def)

subsection \<open>The lines of the build description\<close>

lemma split_lines_line:
  "CHR 0x0A \<notin> set l \<Longrightarrow> split_lines (l @ CHR 0x0A # rest) = l # split_lines rest"
  by (induction l) auto

lemma split_lines_unlines:
  "\<forall>l \<in> set ls. CHR 0x0A \<notin> set l \<Longrightarrow> split_lines (unlines ls @ rest) = ls @ split_lines rest"
  by (induction ls) (simp_all add: unlines_def split_lines_line)

lemma join_nl_unlines: "ls \<noteq> [] \<Longrightarrow> join nl ls @ nl = unlines ls"
  by (induction nl ls rule: join.induct) (simp_all add: unlines_def nl_def)

lemma unlines_append: "unlines (xs @ ys) = unlines xs @ unlines ys"
  by (simp add: unlines_def)

lemma shell_expression_unlines:
  assumes "attrs \<noteq> []"
  shows "shell_expression w attrs = unlines (head_lines @ map (input_line w) attrs @ tail_lines)"
proof -
  have "join nl (map (\<lambda>a. ''    '' @ escape_attr w a) attrs) @ nl = unlines (map (input_line w) attrs)"
    using assms by (simp add: join_nl_unlines input_line_def [abs_def])
  then have "shell_expression w attrs =
      unlines head_lines @ unlines (map (input_line w) attrs) @ unlines tail_lines"
    by (simp add: shell_expression_def unlines_def head_lines_def tail_lines_def nl_def dq_def)
  then show ?thesis by (simp add: unlines_append)
qed

lemma fixed_lines_plain:
  "\<forall>l \<in> set head_lines \<union> set tail_lines. CHR 0x0A \<notin> set l"
  by (simp add: head_lines_def tail_lines_def)

lemma input_line_not_fixed:
  "''    '' @ e \<notin> set head_lines \<union> set tail_lines \<union> {[]}"
  by (simp add: head_lines_def tail_lines_def)

lemma shell_expression_lines:
  assumes "attrs \<noteq> []" and "\<forall>a \<in> set attrs. CHR 0x0A \<notin> set (escape_attr w a)"
  shows "split_lines (shell_expression w attrs) =
           head_lines @ map (input_line w) attrs @ tail_lines @ [[]]"
proof -
  have "\<forall>l \<in> set (head_lines @ map (input_line w) attrs @ tail_lines). CHR 0x0A \<notin> set l"
    using assms(2) fixed_lines_plain by (auto simp: input_line_def)
  then have "split_lines (unlines (head_lines @ map (input_line w) attrs @ tail_lines) @ [])
      = (head_lines @ map (input_line w) attrs @ tail_lines) @ split_lines []"
    by (rule split_lines_unlines)
  then show ?thesis by (simp add: shell_expression_unlines [OF assms(1)])
qed

lemma listed_shell_expression:
  assumes "attrs \<noteq> []" and "\<forall>a \<in> set attrs. CHR 0x0A \<notin> set (escape_attr w a)"
  shows "listed e (shell_expression w attrs) \<longleftrightarrow> e \<in> escape_attr w ` set attrs"
proof -
  have "listed e (shell_expression w attrs) \<longleftrightarrow>
      ''    '' @ e \<in> set head_lines \<union> set tail_lines \<union> {[]} \<union> input_line w ` set attrs"
    by (auto simp: listed_def shell_expression_lines [OF assms])
  also have "\<dots> \<longleftrightarrow> ''    '' @ e \<in> input_line w ` set attrs"
    using input_line_not_fixed [of e] by blast
  also have "\<dots> \<longleftrightarrow> e \<in> escape_attr w ` set attrs"
    by (auto simp: input_line_def)
  finally show ?thesis .
qed

lemma line_occurs:
  "l \<in> set ls \<Longrightarrow> \<exists>pre post. unlines ls = pre @ l @ [CHR 0x0A] @ post"
proof -
  assume "l \<in> set ls"
  then obtain xs ys where "ls = xs @ l # ys" by (auto simp: in_set_conv_decomp)
  then have "unlines ls = unlines xs @ l @ [CHR 0x0A] @ unlines ys"
    by (simp add: unlines_def)
  then show ?thesis by blast
qed

lemma input_line_occurs:
  assumes "a \<in> set attrs"
  shows "\<exists>pre post. shell_expression w attrs = pre @ ''    '' @ escape_attr w a @ [CHR 0x0A] @ post"
proof -
  have ne: "attrs \<noteq> []" using assms by auto
  have "input_line w a \<in> set (head_lines @ map (input_line w) attrs @ tail_lines)"
    using assms by simp
  from line_occurs [OF this] show ?thesis
    by (simp add: shell_expression_unlines [OF ne] input_line_def)
qed

subsection \<open>What nix\_build keeps, writes and runs\<close>

lemma nix_build_writes_buildable:
  assumes "WriteFile f c \<in> set (snd (snd (nix_build w h attr_names args cache_directory)))"
  shows "\<exists>out. eval_stdout w = Some out \<and> attr_names \<noteq> [] \<and>
           f = joinpath cache_directory ''build.nix'' \<and>
           filtered (fst (nix_eval_filter h out)) \<noteq> [] \<and>
           c = shell_expression w (filtered (fst (nix_eval_filter h out)))"
proof (cases "attr_names = []")
  case True
  then show ?thesis using assms by (simp add: nix_build_def)
next
  case False
  show ?thesis
  proof (cases "eval_stdout w")
    case None
    then show ?thesis using assms False
      by (simp add: nix_build_failed_eval nix_eval_no_write)
  next
    case (Some out)
    then show ?thesis using assms False
      by (auto simp: nix_build_evaluated Let_def nix_eval_no_write
          split: if_splits option.splits)
  qed
qed

lemma nix_build_written:
  assumes "attr_names \<noteq> []" and "eval_stdout w = Some out"
    and "filtered (fst (nix_eval_filter h out)) \<noteq> []"
  shows "WriteFile (joinpath cache_directory ''build.nix'')
           (shell_expression w (filtered (fst (nix_eval_filter h out))))
         \<in> set (snd (snd (nix_build w h attr_names args cache_directory)))"
  using assms by (simp add: nix_build_evaluated Let_def split: option.splits)

lemma filtered_names: "set (filtered (fst (nix_eval_filter h json))) \<subseteq> fst ` set json"
proof
  fix n assume "n \<in> set (filtered (fst (nix_eval_filter h json)))"
  then obtain t where t: "t \<in> set (fst (nix_eval_filter h json))" "name t = n"
    by (auto simp: filtered_def)
  from result_from_items [OF t(1)] obtain x where "x \<in> set json" "t = attr_of x" by blast
  then show "n \<in> fst ` set json" using t(2) by auto
qed

text \<open>
  C4. A name of the denylist gives a target with \<open>blacklisted\<close> set, whatever the
  response says of it (\<open>broken\<close> included); the name is not among the names
  \<open>nix_build\<close> keeps from any evaluation, and no build description that \<open>nix_build\<close>
  writes lists it.
\<close>

theorem denylisted_not_buildable:
  assumes "n \<in> blacklist"
  shows "blacklisted (attr_of (n, pr)) \<and>
         n \<notin> set (filtered (fst (nix_eval_filter h json))) \<and>
         (\<forall>f c. WriteFile f c \<in> set (snd (snd (nix_build w h attr_names args cache_directory)))
            \<longrightarrow> (\<exists>ns. c = shell_expression w ns \<and> n \<notin> set ns))"
proof -
  have no: "n \<notin> set (filtered (fst (nix_eval_filter h' out)))" for h' out
  proof
    assume "n \<in> set (filtered (fst (nix_eval_filter h' out)))"
    then obtain t where t: "t \<in> set (fst (nix_eval_filter h' out))" "name t = n"
      "\<not> blacklisted t"
      by (auto simp: filtered_def)
    from result_from_items [OF t(1)] obtain x where "t = attr_of x" by blast
    then show False using t assms by simp
  qed
  have "\<exists>ns. c = shell_expression w ns \<and> n \<notin> set ns"
    if "WriteFile f c \<in> set (snd (snd (nix_build w h attr_names args cache_directory)))" for f c
  proof -
    from nix_build_writes [OF that] obtain out
      where "c = shell_expression w (filtered (fst (nix_eval_filter h out)))" by blast
    then show ?thesis using no by blast
  qed
  moreover have "blacklisted (attr_of (n, pr))" using assms by simp
  ultimately show ?thesis using no by blast
qed

theorem denylisted_not_buildable_witness:
  "''tests.nixos-functions.nixos-test'' \<in> blacklist \<and>
   blacklisted (attr_of (mk_item ''tests.nixos-functions.nixos-test'' True False (Some ''/x''))) \<and>
   ''tests.nixos-functions.nixos-test'' \<notin> set (filtered (fst (nix_eval_filter empty_store
      [mk_item ''tests.nixos-functions.nixos-test'' True False (Some ''/x''),
       mk_item ''a'' True False (Some ''/y'')]))) \<and>
   WriteFile ''/cache/build.nix''
       (shell_expression
          (world0 (Some [mk_item ''tests.nixos-functions.nixos-test'' True False (Some ''/x''),
                         mk_item ''a'' True False (Some ''/y'')]) 0) [''a''])
     \<in> set (snd (snd (nix_build
          (world0 (Some [mk_item ''tests.nixos-functions.nixos-test'' True False (Some ''/x''),
                         mk_item ''a'' True False (Some ''/y'')]) 0)
          empty_store [''tests.nixos-functions.nixos-test'', ''a''] [] ''/cache''))) \<and>
   (\<exists>ns. shell_expression
          (world0 (Some [mk_item ''tests.nixos-functions.nixos-test'' True False (Some ''/x''),
                         mk_item ''a'' True False (Some ''/y'')]) 0) [''a'']
         = shell_expression
          (world0 (Some [mk_item ''tests.nixos-functions.nixos-test'' True False (Some ''/x''),
                         mk_item ''a'' True False (Some ''/y'')]) 0) ns \<and>
         ''tests.nixos-functions.nixos-test'' \<notin> set ns)"
proof -
  let ?J = "[mk_item ''tests.nixos-functions.nixos-test'' True False (Some ''/x''),
             mk_item ''a'' True False (Some ''/y'')]"
  let ?w = "world0 (Some ?J) 0"
  have 1: "''tests.nixos-functions.nixos-test'' \<in> blacklist" by (simp add: blacklist_def)
  have ev: "eval_stdout ?w = Some ?J" "shlex_split ?w [] = Some []"
    by (simp_all add: world0_def shlex0_def)
  have fi: "filtered (fst (nix_eval_filter empty_store ?J)) = [''a'']"
    by (simp add: nix_eval_filter_def filter_step_def Let_def filtered_def mk_item_def
        blacklist_def)
  have wr: "WriteFile ''/cache/build.nix'' (shell_expression ?w [''a''])
     \<in> set (snd (snd (nix_build ?w empty_store [''tests.nixos-functions.nixos-test'', ''a'']
                          [] ''/cache'')))"
    by (simp add: nix_build_evaluated [OF _ ev(1)] ev(2) fi joinpath_def Let_def)
  note inst = denylisted_not_buildable [OF 1, of
      "snd (mk_item ''tests.nixos-functions.nixos-test'' True False (Some ''/x''))" empty_store
      ?J ?w "[''tests.nixos-functions.nixos-test'', ''a'']" "[]" "''/cache''"]
  have pair: "(''tests.nixos-functions.nixos-test'',
      snd (mk_item ''tests.nixos-functions.nixos-test'' True False (Some ''/x'')))
      = mk_item ''tests.nixos-functions.nixos-test'' True False (Some ''/x'')"
    by (simp add: mk_item_def)
  have a: "blacklisted (attr_of (mk_item ''tests.nixos-functions.nixos-test'' True False (Some ''/x'')))"
    using inst [THEN conjunct1] unfolding pair .
  have b: "''tests.nixos-functions.nixos-test'' \<notin> set (filtered (fst (nix_eval_filter empty_store ?J)))"
    by (rule inst [THEN conjunct2, THEN conjunct1])
  have c: "\<exists>ns. shell_expression ?w [''a''] = shell_expression ?w ns \<and>
      ''tests.nixos-functions.nixos-test'' \<notin> set ns"
    by (rule inst [THEN conjunct2, THEN conjunct2, THEN spec, THEN spec, THEN mp, OF wr])
  show ?thesis using 1 a b wr c by (intro conjI)
qed

text \<open>
  C5 as stated fails: the result \<open>c\<close> with a null output path, not broken and not
  denylisted, is returned as a target, is kept by the filter of \<open>nix_build\<close> and is
  written to the build description.
\<close>

theorem unresolved_built_counterexample:
  "path (attr_of (mk_item ''c'' True False None)) = None \<and>
   \<not> broken (attr_of (mk_item ''c'' True False None)) \<and>
   \<not> blacklisted (attr_of (mk_item ''c'' True False None)) \<and>
   fst (nix_eval_filter empty_store [mk_item ''c'' True False None])
     = [attr_of (mk_item ''c'' True False None)] \<and>
   filtered (fst (nix_eval_filter empty_store [mk_item ''c'' True False None])) = [''c''] \<and>
   WriteFile ''/cache/build.nix''
       (shell_expression (world0 (Some [mk_item ''c'' True False None]) 0) [''c''])
     \<in> set (snd (snd (nix_build (world0 (Some [mk_item ''c'' True False None]) 0) empty_store
                           [''c''] [] ''/cache'')))"
proof -
  have run: "fst (nix_eval_filter empty_store [mk_item ''c'' True False None])
     = [attr_of (mk_item ''c'' True False None)]"
    by (simp add: nix_eval_filter_def filter_step_def Let_def mk_item_def)
  have at: "path (attr_of (mk_item ''c'' True False None)) = None \<and>
      \<not> broken (attr_of (mk_item ''c'' True False None)) \<and>
      \<not> blacklisted (attr_of (mk_item ''c'' True False None)) \<and>
      name (attr_of (mk_item ''c'' True False None)) = ''c''"
    by (simp add: mk_item_def blacklist_def)
  have fi: "filtered (fst (nix_eval_filter empty_store [mk_item ''c'' True False None])) = [''c'']"
    by (simp add: run filtered_def) (simp add: mk_item_def blacklist_def)
  have ev: "eval_stdout (world0 (Some [mk_item ''c'' True False None]) 0)
      = Some [mk_item ''c'' True False None]"
    "shlex_split (world0 (Some [mk_item ''c'' True False None]) 0) [] = Some []"
    by (simp_all add: world0_def shlex0_def)
  have "WriteFile ''/cache/build.nix''
       (shell_expression (world0 (Some [mk_item ''c'' True False None]) 0) [''c''])
     \<in> set (snd (snd (nix_build (world0 (Some [mk_item ''c'' True False None]) 0) empty_store
                           [''c''] [] ''/cache'')))"
    by (simp add: nix_build_evaluated [OF _ ev(1)] ev(2) fi joinpath_def Let_def)
  then show ?thesis using run at fi by blast
qed

text \<open>
  C5, amended. The filter of \<open>nix_build\<close> does not look at the output path. A result
  with a null output path is returned as a target of its own, and (names being the keys
  of a JSON object, hence distinct) its name is among the names kept exactly when it is
  neither broken nor denylisted. When it is neither, \<open>nix_build\<close> writes \<open>build.nix\<close>
  with the input line of its escaped name in it. And when \<open>escape_attr\<close> is injective
  on the names of the response and puts no line break in them, every build description
  that \<open>nix_build\<close> writes lists the escaped name exactly when the result is neither
  broken nor denylisted.
\<close>

theorem unresolved_buildable_iff:
  assumes "distinct (map fst json)" and "(n, pr) \<in> set json" and "p_path pr = None"
  shows "attr_of (n, pr) \<in> set (fst (nix_eval_filter h json)) \<and>
         (n \<in> set (filtered (fst (nix_eval_filter h json))) \<longleftrightarrow> \<not> p_broken pr \<and> n \<notin> blacklist) \<and>
         (attr_names \<noteq> [] \<and> eval_stdout w = Some json \<and> \<not> p_broken pr \<and> n \<notin> blacklist \<longrightarrow>
            (\<exists>pre post.
               WriteFile (joinpath cache_directory ''build.nix'')
                   (pre @ ''    '' @ escape_attr w n @ [CHR 0x0A] @ post)
                 \<in> set (snd (snd (nix_build w h attr_names args cache_directory))))) \<and>
         (eval_stdout w = Some json \<and> inj_on (escape_attr w) (fst ` set json) \<and>
          (\<forall>a \<in> fst ` set json. CHR 0x0A \<notin> set (escape_attr w a)) \<longrightarrow>
            (\<forall>f c. WriteFile f c \<in> set (snd (snd (nix_build w h attr_names args cache_directory)))
               \<longrightarrow> (listed (escape_attr w n) c \<longleftrightarrow> \<not> p_broken pr \<and> n \<notin> blacklist)))"
proof -
  let ?r = "fst (nix_eval_filter h json)"
  let ?evs = "snd (snd (nix_build w h attr_names args cache_directory))"
  have own: "attr_of (n, pr) \<in> set ?r"
    using assms(2,3) by (force simp: eval_filter_result unresolved_def)
  have iff: "n \<in> set (filtered ?r) \<longleftrightarrow> \<not> p_broken pr \<and> n \<notin> blacklist"
  proof
    assume "n \<in> set (filtered ?r)"
    then obtain t where t: "t \<in> set ?r" "name t = n" "\<not> broken t" "\<not> blacklisted t"
      by (auto simp: filtered_def)
    from result_from_items [OF t(1)] obtain x where x: "x \<in> set json" "t = attr_of x" by blast
    then have "fst x = n" using t by simp
    then have "x = (n, pr)"
      using assms(1,2) x(1) by (metis eq_key_imp_eq_value prod.collapse)
    then show "\<not> p_broken pr \<and> n \<notin> blacklist" using t x by simp
  next
    assume "\<not> p_broken pr \<and> n \<notin> blacklist"
    then have "\<not> broken (attr_of (n, pr))" "\<not> blacklisted (attr_of (n, pr))" by simp_all
    then have "name (attr_of (n, pr)) \<in> set (filtered ?r)"
      using own by (intro filtered_member)
    then show "n \<in> set (filtered ?r)" by simp
  qed
  have written: "\<exists>pre post. WriteFile (joinpath cache_directory ''build.nix'')
                   (pre @ ''    '' @ escape_attr w n @ [CHR 0x0A] @ post) \<in> set ?evs"
    if "attr_names \<noteq> []" "eval_stdout w = Some json" "\<not> p_broken pr" "n \<notin> blacklist"
  proof -
    have mem: "n \<in> set (filtered ?r)" using iff that by simp
    then have ne: "filtered ?r \<noteq> []" by auto
    from input_line_occurs [OF mem, of w] obtain pre post where
      "shell_expression w (filtered ?r) = pre @ ''    '' @ escape_attr w n @ [CHR 0x0A] @ post"
      by blast
    then have "WriteFile (joinpath cache_directory ''build.nix'')
        (pre @ ''    '' @ escape_attr w n @ [CHR 0x0A] @ post) \<in> set ?evs"
      using nix_build_written [OF that(1,2) ne, of cache_directory args] by simp
    then show ?thesis by blast
  qed
  have only: "listed (escape_attr w n) c \<longleftrightarrow> \<not> p_broken pr \<and> n \<notin> blacklist"
    if ev: "eval_stdout w = Some json" and inj: "inj_on (escape_attr w) (fst ` set json)"
      and plain: "\<forall>a \<in> fst ` set json. CHR 0x0A \<notin> set (escape_attr w a)"
      and wr: "WriteFile f c \<in> set ?evs" for f c
  proof -
    from nix_build_writes_buildable [OF wr] ev
    have ne: "filtered ?r \<noteq> []" and c: "c = shell_expression w (filtered ?r)" by auto
    have sub: "set (filtered ?r) \<subseteq> fst ` set json" by (rule filtered_names)
    then have "\<forall>a \<in> set (filtered ?r). CHR 0x0A \<notin> set (escape_attr w a)"
      using plain by blast
    then have "listed (escape_attr w n) c \<longleftrightarrow> escape_attr w n \<in> escape_attr w ` set (filtered ?r)"
      unfolding c using ne by (intro listed_shell_expression)
    also have "\<dots> \<longleftrightarrow> n \<in> set (filtered ?r)"
    proof
      assume "escape_attr w n \<in> escape_attr w ` set (filtered ?r)"
      then obtain a where a: "a \<in> set (filtered ?r)" "escape_attr w n = escape_attr w a" by blast
      have nj: "n \<in> fst ` set json" using assms(2) by force
      have aj: "a \<in> fst ` set json" using a(1) sub by blast
      have "n = a" by (rule inj_onD [OF inj a(2) nj aj])
      then show "n \<in> set (filtered ?r)" using a by simp
    qed simp
    finally show ?thesis using iff by simp
  qed
  show ?thesis
  proof (intro conjI impI allI)
    show "attr_of (n, pr) \<in> set ?r" by (rule own)
    show "n \<in> set (filtered ?r) \<longleftrightarrow> \<not> p_broken pr \<and> n \<notin> blacklist" by (rule iff)
  next
    assume "attr_names \<noteq> [] \<and> eval_stdout w = Some json \<and> \<not> p_broken pr \<and> n \<notin> blacklist"
    then show "\<exists>pre post. WriteFile (joinpath cache_directory ''build.nix'')
                   (pre @ ''    '' @ escape_attr w n @ [CHR 0x0A] @ post) \<in> set ?evs"
      using written by simp
  next
    fix f c
    assume "eval_stdout w = Some json \<and> inj_on (escape_attr w) (fst ` set json) \<and>
          (\<forall>a \<in> fst ` set json. CHR 0x0A \<notin> set (escape_attr w a))"
      and "WriteFile f c \<in> set ?evs"
    then show "listed (escape_attr w n) c \<longleftrightarrow> \<not> p_broken pr \<and> n \<notin> blacklist"
      using only [of f c] by blast
  qed
qed

theorem unresolved_buildable_iff_witness:
  "distinct (map fst [mk_item ''c'' True False None, mk_item ''d'' True True None]) \<and>
   ''c'' \<in> set (filtered (fst (nix_eval_filter empty_store
       [mk_item ''c'' True False None, mk_item ''d'' True True None]))) \<and>
   ''d'' \<notin> set (filtered (fst (nix_eval_filter empty_store
       [mk_item ''c'' True False None, mk_item ''d'' True True None]))) \<and>
   (\<exists>pre post.
      WriteFile ''/cache/build.nix'' (pre @ ''    c'' @ [CHR 0x0A] @ post)
        \<in> set (snd (snd (nix_build
             (world0 (Some [mk_item ''c'' True False None, mk_item ''d'' True True None]) 0)
             empty_store [''c'', ''d''] [] ''/cache'')))) \<and>
   WriteFile ''/cache/build.nix''
       (shell_expression
          (world0 (Some [mk_item ''c'' True False None, mk_item ''d'' True True None]) 0) [''c''])
     \<in> set (snd (snd (nix_build
          (world0 (Some [mk_item ''c'' True False None, mk_item ''d'' True True None]) 0)
          empty_store [''c'', ''d''] [] ''/cache''))) \<and>
   listed ''c'' (shell_expression
      (world0 (Some [mk_item ''c'' True False None, mk_item ''d'' True True None]) 0) [''c'']) \<and>
   \<not> listed ''d'' (shell_expression
      (world0 (Some [mk_item ''c'' True False None, mk_item ''d'' True True None]) 0) [''c''])"
proof -
  let ?J = "[mk_item ''c'' True False None, mk_item ''d'' True True None]"
  let ?w = "world0 (Some ?J) 0"
  let ?evs = "snd (snd (nix_build ?w empty_store [''c'', ''d''] [] ''/cache''))"
  have d: "distinct (map fst ?J)" by (simp add: mk_item_def)
  have c: "(''c'', \<lparr>p_exists = True, p_broken = False, p_path = None, p_drvPath = None\<rparr>) \<in> set ?J"
    and d': "(''d'', \<lparr>p_exists = True, p_broken = True, p_path = None, p_drvPath = None\<rparr>) \<in> set ?J"
    by (simp_all add: mk_item_def)
  have nb: "''c'' \<notin> blacklist" by (simp add: blacklist_def)
  have ne: "[''c'', ''d''] \<noteq> []" by simp
  have ev: "eval_stdout ?w = Some ?J" by (simp add: world0_def)
  have esc: "escape_attr ?w = (\<lambda>a. a)" by (simp add: world0_def)
  have inj: "inj_on (escape_attr ?w) (fst ` set ?J)" by (simp add: esc)
  have plain: "\<forall>a \<in> fst ` set ?J. CHR 0x0A \<notin> set (escape_attr ?w a)"
    by (simp add: mk_item_def world0_def)
  have jp: "joinpath ''/cache'' ''build.nix'' = ''/cache/build.nix''" by (simp add: joinpath_def)
  have pc: "p_path \<lparr>p_exists = True, p_broken = False, p_path = None, p_drvPath = None\<rparr> = None"
    and pd: "p_path \<lparr>p_exists = True, p_broken = True, p_path = None, p_drvPath = None\<rparr> = None"
    by simp_all
  note C = unresolved_buildable_iff [OF d c pc, of empty_store "[''c'', ''d'']" ?w "''/cache''" "[]"]
  note D = unresolved_buildable_iff [OF d d' pd, of empty_store "[''c'', ''d'']" ?w "''/cache''" "[]"]
  have 1: "''c'' \<in> set (filtered (fst (nix_eval_filter empty_store ?J)))"
    using C nb by simp
  have 2: "''d'' \<notin> set (filtered (fst (nix_eval_filter empty_store ?J)))"
    using D by simp
  have 3: "\<exists>pre post. WriteFile ''/cache/build.nix'' (pre @ ''    c'' @ [CHR 0x0A] @ post) \<in> set ?evs"
    using C [THEN conjunct2, THEN conjunct2, THEN conjunct1] ne ev nb
    by (simp add: esc jp)
  have 4: "listed ''c'' x \<and> \<not> listed ''d'' x" if "WriteFile f x \<in> set ?evs" for f x
    using C [THEN conjunct2, THEN conjunct2, THEN conjunct2, THEN mp, OF conjI [OF ev conjI [OF inj plain]],
        THEN spec, THEN spec, THEN mp, OF that]
      D [THEN conjunct2, THEN conjunct2, THEN conjunct2, THEN mp, OF conjI [OF ev conjI [OF inj plain]],
        THEN spec, THEN spec, THEN mp, OF that] nb
    by (simp add: esc)
  have fi: "filtered (fst (nix_eval_filter empty_store ?J)) = [''c'']"
    by (simp add: nix_eval_filter_def filter_step_def Let_def filtered_def mk_item_def
        blacklist_def)
  have 5: "WriteFile ''/cache/build.nix'' (shell_expression ?w [''c'']) \<in> set ?evs"
    using nix_build_written [OF ne ev, of empty_store "''/cache''" "[]"] by (simp add: fi jp)
  show ?thesis using d 1 2 3 5 4 [OF 5] by blast
qed

text \<open>
  C7 as stated fails: on the non-empty input \<open>{a}\<close>, \<open>nix_build\<close> raises
  \<open>CalledProcessError\<close> when the evaluation exits non-zero, and raises \<open>ValueError\<close>
  when the extra arguments are a lone quotation mark and something is buildable; in
  neither case does it return a list.
\<close>

theorem nix_build_raises_counterexample:
  "[''a''] \<noteq> [] \<and>
   fst (nix_build (world0 None 1) empty_store [''a''] [] ''/cache'') = Inl CalledProcessError \<and>
   fst (nix_build (world0 (Some [mk_item ''a'' True False (Some ''/x'')]) 0) empty_store
          [''a''] [CHR 0x27] ''/cache'') = Inl ValueError"
proof -
  let ?w = "world0 (Some [mk_item ''a'' True False (Some ''/x'')]) 0"
  have 1: "fst (nix_build (world0 None 1) empty_store [''a''] [] ''/cache'') = Inl CalledProcessError"
    by (simp add: nix_build_failed_eval world0_def shlex0_def)
  have ev: "eval_stdout ?w = Some [mk_item ''a'' True False (Some ''/x'')]"
    "shlex_split ?w [CHR 0x27] = None"
    by (simp_all add: world0_def shlex0_def)
  have fi: "filtered (fst (nix_eval_filter empty_store [mk_item ''a'' True False (Some ''/x'')]))
      = [''a'']"
    by (simp add: nix_eval_filter_def filter_step_def Let_def filtered_def mk_item_def blacklist_def)
  have 2: "fst (nix_build ?w empty_store [''a''] [CHR 0x27] ''/cache'') = Inl ValueError"
    by (simp add: nix_build_evaluated [OF _ ev(1)] ev(2) fi Let_def)
  show ?thesis using 1 2 by simp
qed

text \<open>
  C7, amended. On a non-empty input whose evaluation succeeds: if nothing is buildable,
  \<open>nix_build\<close> returns the full evaluated list, with the store and the events of the
  evaluation alone (one process, the evaluation); if the extra arguments tokenise, it
  returns the full evaluated list whatever the exit code of the build; and whenever it
  returns, it returns the full evaluated list.
\<close>

theorem nix_build_returns_evaluated:
  assumes "attr_names \<noteq> []" and "eval_stdout w = Some out"
  shows "(filtered (fst (nix_eval_filter h out)) = [] \<longrightarrow>
            nix_build w h attr_names args cache_directory =
              (Inr (fst (nix_eval_filter h out)), snd (nix_eval_filter h out),
               snd (snd (nix_eval w h attr_names))) \<and>
            length (filter is_run (snd (snd (nix_build w h attr_names args cache_directory)))) = 1) \<and>
         (shlex_split w args \<noteq> None \<longrightarrow>
            (\<forall>rc. fst (nix_build (w\<lparr>build_returncode := rc\<rparr>) h attr_names args cache_directory)
                    = Inr (fst (nix_eval_filter h out)))) \<and>
         (\<forall>r. fst (nix_build w h attr_names args cache_directory) = Inr r
                \<longrightarrow> r = fst (nix_eval_filter h out))"
proof (intro conjI impI allI)
  assume "filtered (fst (nix_eval_filter h out)) = []"
  then show "nix_build w h attr_names args cache_directory =
              (Inr (fst (nix_eval_filter h out)), snd (nix_eval_filter h out),
               snd (snd (nix_eval w h attr_names)))"
    using assms by (simp add: nix_build_evaluated)
  then show "length (filter is_run (snd (snd (nix_build w h attr_names args cache_directory)))) = 1"
    by (simp add: nix_eval_runs)
next
  fix rc
  assume "shlex_split w args \<noteq> None"
  moreover have "eval_stdout (w\<lparr>build_returncode := rc\<rparr>) = Some out" using assms by simp
  ultimately show "fst (nix_build (w\<lparr>build_returncode := rc\<rparr>) h attr_names args cache_directory)
                    = Inr (fst (nix_eval_filter h out))"
    using assms(1) by (auto simp: nix_build_evaluated Let_def)
next
  fix r
  assume "fst (nix_build w h attr_names args cache_directory) = Inr r"
  then show "r = fst (nix_eval_filter h out)"
    using assms by (auto simp: nix_build_evaluated Let_def split: if_splits option.splits)
qed

theorem nix_build_returns_evaluated_witness:
  "fst (nix_build (world0 (Some [mk_item ''a'' True False (Some ''/x'')]) 1) empty_store
          [''a''] [] ''/cache'')
     = Inr [attr_of (mk_item ''a'' True False (Some ''/x''))] \<and>
   nix_build (world0 (Some [mk_item ''b'' True True (Some ''/x'')]) 0) empty_store
          [''b''] [] ''/cache''
     = (Inr [attr_of (mk_item ''b'' True True (Some ''/x''))],
        snd (nix_eval_filter empty_store [mk_item ''b'' True True (Some ''/x'')]),
        snd (snd (nix_eval (world0 (Some [mk_item ''b'' True True (Some ''/x'')]) 0)
                    empty_store [''b'']))) \<and>
   length (filter is_run (snd (snd (nix_build
      (world0 (Some [mk_item ''b'' True True (Some ''/x'')]) 0) empty_store
          [''b''] [] ''/cache'')))) = 1"
proof -
  let ?w = "world0 (Some [mk_item ''a'' True False (Some ''/x'')]) 0"
  let ?v = "world0 (Some [mk_item ''b'' True True (Some ''/x'')]) 0"
  have ne: "[''a''] \<noteq> []" "[''b''] \<noteq> []" by simp_all
  have ev: "eval_stdout ?w = Some [mk_item ''a'' True False (Some ''/x'')]"
    and ev': "eval_stdout ?v = Some [mk_item ''b'' True True (Some ''/x'')]"
    and sp: "shlex_split ?w [] \<noteq> None"
    and rc: "?w\<lparr>build_returncode := 1\<rparr> = world0 (Some [mk_item ''a'' True False (Some ''/x'')]) 1"
    by (simp_all add: world0_def shlex0_def)
  have run: "fst (nix_eval_filter empty_store [mk_item ''a'' True False (Some ''/x'')])
     = [attr_of (mk_item ''a'' True False (Some ''/x''))]"
    "fst (nix_eval_filter empty_store [mk_item ''b'' True True (Some ''/x'')])
     = [attr_of (mk_item ''b'' True True (Some ''/x''))]"
    by (simp_all add: nix_eval_filter_def filter_step_def Let_def mk_item_def)
  have fi: "filtered (fst (nix_eval_filter empty_store [mk_item ''b'' True True (Some ''/x'')])) = []"
    by (simp add: run filtered_def) (simp add: mk_item_def)
  have a: "fst (nix_build (world0 (Some [mk_item ''a'' True False (Some ''/x'')]) 1) empty_store
          [''a''] [] ''/cache'')
     = Inr [attr_of (mk_item ''a'' True False (Some ''/x''))]"
    using nix_build_returns_evaluated [OF ne(1) ev, of empty_store "[]" "''/cache''"] sp run(1)
    by (simp add: rc [symmetric])
  note b = nix_build_returns_evaluated [OF ne(2) ev', of empty_store "[]" "''/cache''",
      THEN conjunct1, THEN mp, OF fi]
  show ?thesis using a b unfolding run(2) by blast
qed



end
